theory Spec2Isabelle
  imports Main
begin

section \<open>Configuration of \<^verbatim>\<open>scripts/generate_screenshot.py\<close>\<close>

text \<open>
  The module-level constants of the script. Python integers are modelled as \<open>int\<close>,
  strings as \<open>string\<close>, colours by their hexadecimal names.
\<close>

definition INPUT_FILE :: string where
  "INPUT_FILE = ''output/live_run.txt''"

definition OUTPUT_FILE_PREFIX :: string where
  "OUTPUT_FILE_PREFIX = ''output/screenshot''"

definition BG_COLOR :: string where
  "BG_COLOR = ''#2E3440''"

definition TEXT_COLOR :: string where
  "TEXT_COLOR = ''#E5E9F0''"

definition PROMPT_COLOR :: string where
  "PROMPT_COLOR = ''#A3BE8C''"

definition LINE_SPACING :: int where
  "LINE_SPACING = 5"

definition PADDING :: int where
  "PADDING = 20"

definition MAX_IMAGE_HEIGHT :: int where
  "MAX_IMAGE_HEIGHT = 800"

definition PROMPT :: string where
  "PROMPT = ''$ ''"

section \<open>Data model\<close>

text \<open>
  The exceptions that can leave \<open>main\<close>: an index out of range of a list, and
  \<open>sys.exit\<close>. A run either returns or ends in one of them.
\<close>

datatype py_error = IndexError

datatype outcome = Returned | SystemExit int | Raised py_error

text \<open>Reading a list at an index that only counts upwards from 0, as the script does.\<close>

definition list_index :: "'a list \<Rightarrow> nat \<Rightarrow> py_error + 'a" where
  "list_index xs i = (if i < length xs then Inr (xs ! i) else Inl IndexError)"

text \<open>
  The text measurement of Pillow is outside the repository. A drawing context of a
  modern Pillow has \<open>textbbox\<close>, which gives the box \<open>(left, top, right, bottom)\<close>
  of a text; an older one has only \<open>textsize\<close>, which gives \<open>(width, height)\<close>.
  The globally selected font is part of the context.
\<close>

datatype draw = Textbbox "string \<Rightarrow> int \<times> int \<times> int \<times> int" | Textsize "string \<Rightarrow> int \<times> int"

fun get_text_size :: "draw \<Rightarrow> string \<Rightarrow> int \<times> int" where
  "get_text_size (Textbbox textbbox) text =
     (case textbbox text of (b0, b1, b2, b3) \<Rightarrow> (b2 - b0, b3 - b1))"
| "get_text_size (Textsize textsize) text = textsize text"

text \<open>One call of \<open>draw.text\<close>, and an image with the calls made on it, in order.\<close>

record draw_call =
  call_xy :: "int \<times> int"
  call_text :: string
  call_fill :: string

record image =
  img_size :: "int \<times> int"
  img_color :: string
  img_calls :: "draw_call list"

text \<open>
  What the script sees and changes of its environment: the paths that exist, the lines
  of the input file as \<open>f.read().splitlines()\<close> returns them (\<open>None\<close> when
  \<open>open\<close> raises \<open>FileNotFoundError\<close>), the images saved with their file names,
  and what was printed on the two streams, in order.
\<close>

record world =
  fs_paths :: "string set"
  transcript :: "string list option"
  saved :: "(string \<times> image) list"
  stdout :: "string list"
  stderr :: "string list"

section \<open>Library functions the script calls\<close>

text \<open>\<open>str.startswith\<close> and \<open>os.path.dirname\<close> (POSIX), \<open>os.makedirs\<close>, \<open>str\<close> of a count.\<close>

definition startswith :: "string \<Rightarrow> string \<Rightarrow> bool" where
  "startswith s p = (take (length p) s = p)"

definition rstrip_sep :: "string \<Rightarrow> string" where
  "rstrip_sep s = rev (dropWhile (\<lambda>c. c = CHR ''/'') (rev s))"

definition dirname :: "string \<Rightarrow> string" where
  "dirname p =
     (let head = rev (dropWhile (\<lambda>c. c \<noteq> CHR ''/'') (rev p))
      in if head \<noteq> [] \<and> filter (\<lambda>c. c \<noteq> CHR ''/'') head \<noteq> [] then rstrip_sep head else head)"

definition makedirs :: "string \<Rightarrow> string set \<Rightarrow> string set" where
  "makedirs p paths = insert p paths"

definition digit :: "nat \<Rightarrow> char" where
  "digit n = char_of (48 + n)"

fun str :: "nat \<Rightarrow> string" where
  "str n = (if n < 10 then [digit n] else str (n div 10) @ [digit (n mod 10)])"

declare str.simps [simp del]

section \<open>The loops of \<open>main\<close>\<close>

text \<open>
  Lines 55 to 60: the first three lines get the prompt in front. The arguments are the
  counter of \<open>enumerate\<close>, the lines still to visit and \<open>styled_lines\<close> so far.
\<close>

fun style_loop :: "nat \<Rightarrow> string list \<Rightarrow> string list \<Rightarrow> string list" where
  "style_loop i [] styled_lines = styled_lines"
| "style_loop i (line # rest) styled_lines =
     (if i < 3 then style_loop (i + 1) rest (styled_lines @ [PROMPT @ line])
      else style_loop (i + 1) rest (styled_lines @ [line]))"

text \<open>Lines 66 to 71: the widest line and the height of every line.\<close>

fun measure_loop :: "draw \<Rightarrow> string list \<Rightarrow> int \<Rightarrow> int list \<Rightarrow> int \<times> int list" where
  "measure_loop d [] max_width line_heights = (max_width, line_heights)"
| "measure_loop d (line # rest) max_width line_heights =
     (case get_text_size d line of (width, height) \<Rightarrow>
        measure_loop d rest (max max_width width) (line_heights @ [height]))"

text \<open>
  Lines 84 to 93, the inner loop: it fills one part. The state is
  \<open>current_line_index\<close>, \<open>part_height_calculator\<close> and \<open>lines_for_this_part\<close>.
\<close>

function inner_loop ::
  "string list \<Rightarrow> int list \<Rightarrow> nat \<Rightarrow> int \<Rightarrow> string list \<Rightarrow> py_error + (nat \<times> int \<times> string list)"
where
  "inner_loop styled_lines line_heights current_line_index part_height_calculator lines_for_this_part =
     (if current_line_index < length styled_lines then
        (case list_index line_heights current_line_index of
           Inl e \<Rightarrow> Inl e
         | Inr height \<Rightarrow>
             (let line_h = height + LINE_SPACING in
              if part_height_calculator + line_h > MAX_IMAGE_HEIGHT \<and> lines_for_this_part \<noteq> []
              then Inr (current_line_index, part_height_calculator, lines_for_this_part)
              else inner_loop styled_lines line_heights (current_line_index + 1)
                     (part_height_calculator + line_h)
                     (lines_for_this_part @ [styled_lines ! current_line_index])))
      else Inr (current_line_index, part_height_calculator, lines_for_this_part))"
  by pat_completeness auto
termination
  by (relation "measure (\<lambda>(styled_lines, line_heights, current_line_index, h, p).
        length styled_lines - current_line_index)") auto

declare inner_loop.simps [simp del]

text \<open>
  Lines 106 to 111, the body of the drawing loop: the calls of \<open>draw.text\<close> for one
  line at height \<open>y_text\<close>.
\<close>

definition draw_line :: "draw \<Rightarrow> int \<Rightarrow> string \<Rightarrow> draw_call list" where
  "draw_line d y_text line =
     (if startswith line PROMPT then
        (case get_text_size d PROMPT of (prompt_width, _) \<Rightarrow>
           [\<lparr>call_xy = (PADDING, y_text), call_text = PROMPT, call_fill = PROMPT_COLOR\<rparr>,
            \<lparr>call_xy = (PADDING + prompt_width, y_text), call_text = drop (length PROMPT) line,
             call_fill = TEXT_COLOR\<rparr>])
      else [\<lparr>call_xy = (PADDING, y_text), call_text = line, call_fill = TEXT_COLOR\<rparr>])"

text \<open>
  Lines 102 to 113: the drawing loop over the lines of a part. The arguments are
  \<open>line_heights\<close>, \<open>part_start_index\<close>, the counter of \<open>enumerate\<close>, the lines still
  to draw, \<open>y_text\<close> and the calls made so far.
\<close>

fun draw_loop ::
  "draw \<Rightarrow> int list \<Rightarrow> nat \<Rightarrow> nat \<Rightarrow> string list \<Rightarrow> int \<Rightarrow> draw_call list \<Rightarrow> py_error + draw_call list"
where
  "draw_loop d line_heights part_start_index i [] y_text calls = Inr calls"
| "draw_loop d line_heights part_start_index i (line # rest) y_text calls =
     (let original_line_index = part_start_index + i;
          calls' = calls @ draw_line d y_text line
      in case list_index line_heights original_line_index of
           Inl e \<Rightarrow> Inl e
         | Inr height \<Rightarrow>
             draw_loop d line_heights part_start_index (i + 1) rest
               (y_text + (height + LINE_SPACING)) calls')"

lemma inner_loop_index_mono:
  "inner_loop ls hs i h p = Inr (i', h', p') \<Longrightarrow> i \<le> i'"
proof (induction ls hs i h p rule: inner_loop.induct)
  case (1 ls hs i h p)
  show ?case
  proof (cases "i < length ls")
    case False
    with "1.prems" show ?thesis by (simp add: inner_loop.simps)
  next
    case True
    note inrange = this
    show ?thesis
    proof (cases "list_index hs i")
      case (Inl e)
      with inrange "1.prems" show ?thesis by (simp add: inner_loop.simps)
    next
      case (Inr height)
      show ?thesis
      proof (cases "h + (height + LINE_SPACING) > MAX_IMAGE_HEIGHT \<and> p \<noteq> []")
        case True
        with inrange Inr "1.prems" show ?thesis by (simp add: inner_loop.simps)
      next
        case False
        with inrange Inr "1.prems"
        have "inner_loop ls hs (i + 1) (h + (height + LINE_SPACING)) (p @ [ls ! i]) = Inr (i', h', p')"
          by (simp add: inner_loop.simps [of ls hs i])
        with "1.IH" [OF inrange Inr refl False] have "i + 1 \<le> i'" by simp
        then show ?thesis by simp
      qed
    qed
  qed
qed

lemma inner_loop_first_line:
  assumes "i < length ls" and "inner_loop ls hs i h [] = Inr (i', h', p')"
  shows "i < i'"
proof (cases "list_index hs i")
  case (Inl e)
  with assms show ?thesis by (simp add: inner_loop.simps)
next
  case (Inr height)
  with assms
  have "inner_loop ls hs (i + 1) (h + (height + LINE_SPACING)) ([] @ [ls ! i]) = Inr (i', h', p')"
    by (simp add: inner_loop.simps [of ls hs i])
  then have "i + 1 \<le> i'" by (rule inner_loop_index_mono)
  then show ?thesis by simp
qed

text \<open>Lines 116 and 118: the name of the file of a part, and the line printed about it.\<close>

definition output_filename :: "nat \<Rightarrow> string" where
  "output_filename part_number = OUTPUT_FILE_PREFIX @ ''_'' @ str part_number @ ''.png''"

definition saved_message :: "nat \<Rightarrow> string" where
  "saved_message part_number =
     ''Screenshot part saved to '' @ [CHR 0x27] @ output_filename part_number @ [CHR 0x27]"

text \<open>
  Lines 79 to 120, the outer loop: each round fills a part, draws it and saves it. The
  state is \<open>part_number\<close>, \<open>current_line_index\<close> and the environment. An exception
  ends the loop with the environment as it is then.
\<close>

function outer_loop ::
  "draw \<Rightarrow> string list \<Rightarrow> int list \<Rightarrow> int \<Rightarrow> nat \<Rightarrow> nat \<Rightarrow> world \<Rightarrow> outcome \<times> world"
where
  "outer_loop d styled_lines line_heights img_width part_number current_line_index w =
     (if current_line_index < length styled_lines then
        (case inner_loop styled_lines line_heights current_line_index PADDING [] of
           Inl e \<Rightarrow> (Raised e, w)
         | Inr (current_line_index', part_height_calculator, lines_for_this_part) \<Rightarrow>
             (case draw_loop d line_heights current_line_index 0 lines_for_this_part PADDING [] of
                Inl e \<Rightarrow> (Raised e, w)
              | Inr calls \<Rightarrow>
                  (let img = \<lparr>img_size = (img_width, part_height_calculator + PADDING),
                              img_color = BG_COLOR, img_calls = calls\<rparr>;
                       w' = w\<lparr>saved := saved w @ [(output_filename part_number, img)],
                              stdout := stdout w @ [saved_message part_number]\<rparr>
                   in outer_loop d styled_lines line_heights img_width (part_number + 1)
                        current_line_index' w')))
      else (Returned, w))"
  by pat_completeness auto
termination
proof (relation "measure (\<lambda>(d, styled_lines, line_heights, img_width, part_number,
        current_line_index, w). length styled_lines - current_line_index)")
  show "wf (measure (\<lambda>(d, styled_lines, line_heights, img_width, part_number,
        current_line_index, w). length styled_lines - current_line_index))"
    by simp
next
  fix d :: draw and styled_lines :: "string list" and line_heights :: "int list"
    and img_width :: int and part_number current_line_index :: nat and w :: world
    and x2 :: "nat \<times> int \<times> string list" and i' :: nat and y :: "int \<times> string list"
    and h' :: int and p' :: "string list" and w' :: world
  assume "current_line_index < length styled_lines"
    and "inner_loop styled_lines line_heights current_line_index PADDING [] = Inr x2"
    and "(i', y) = x2" and "(h', p') = y"
  then have "current_line_index < i'"
    using inner_loop_first_line [of current_line_index styled_lines line_heights PADDING i' h' p']
    by simp
  with \<open>current_line_index < length styled_lines\<close>
  show "((d, styled_lines, line_heights, img_width, part_number + 1, i', w'),
         (d, styled_lines, line_heights, img_width, part_number, current_line_index, w))
        \<in> measure (\<lambda>(d, styled_lines, line_heights, img_width, part_number,
            current_line_index, w). length styled_lines - current_line_index)"
    by simp
qed

declare outer_loop.simps [simp del]

section \<open>The program\<close>

text \<open>Lines 43 to 45: the directory of the output prefix is made when it is not there.\<close>

definition ensure_output_dir :: "world \<Rightarrow> world" where
  "ensure_output_dir w =
     (let output_dir = dirname OUTPUT_FILE_PREFIX
      in if output_dir \<noteq> [] \<and> output_dir \<notin> fs_paths w
         then w\<lparr>fs_paths := makedirs output_dir (fs_paths w)\<rparr> else w)"

text \<open>
  \<open>main\<close>, lines 37 to 120, with the drawing context \<open>d\<close> that \<open>ImageDraw.Draw\<close>
  gives with the selected font.
\<close>

definition main :: "draw \<Rightarrow> world \<Rightarrow> outcome \<times> world" where
  "main d w0 =
     (let w = ensure_output_dir w0
      in case transcript w of
           None \<Rightarrow>
             (SystemExit 1,
              w\<lparr>stderr := stderr w @
                  [''Error: Input file '' @ [CHR 0x27] @ INPUT_FILE @ [CHR 0x27] @ '' not found.'']\<rparr>)
         | Some lines \<Rightarrow>
             (let styled_lines = style_loop 0 lines []
              in case measure_loop d styled_lines 0 [] of (max_width, line_heights) \<Rightarrow>
                   (let img_width = max_width + PADDING * 2
                    in outer_loop d styled_lines line_heights img_width 1 0 w)))"

text \<open>
  The values \<open>main\<close> computes from the lines of the input before it paginates, and the
  images a run adds to those saved before.
\<close>

definition main_styled_lines :: "string list \<Rightarrow> string list" where
  "main_styled_lines lines = style_loop 0 lines []"

definition main_max_width :: "draw \<Rightarrow> string list \<Rightarrow> int" where
  "main_max_width d lines = fst (measure_loop d (main_styled_lines lines) 0 [])"

definition main_line_heights :: "draw \<Rightarrow> string list \<Rightarrow> int list" where
  "main_line_heights d lines = snd (measure_loop d (main_styled_lines lines) 0 [])"

definition new_images :: "draw \<Rightarrow> world \<Rightarrow> image list" where
  "new_images d w = map snd (drop (length (saved w)) (saved (snd (main d w))))"

section \<open>The parts the outer loop goes through\<close>

text \<open>
  What one round of the outer loop settles before it draws: \<open>part_start_index\<close>,
  \<open>lines_for_this_part\<close> and the final \<open>part_height_calculator\<close> (bottom padding
  added, line 95). \<open>parts\<close> is the outer loop with the drawing and saving left out.
\<close>

record part =
  part_start_index :: nat
  part_lines :: "string list"
  part_height :: int

function parts :: "string list \<Rightarrow> int list \<Rightarrow> nat \<Rightarrow> py_error + part list" where
  "parts styled_lines line_heights current_line_index =
     (if current_line_index < length styled_lines then
        (case inner_loop styled_lines line_heights current_line_index PADDING [] of
           Inl e \<Rightarrow> Inl e
         | Inr (current_line_index', part_height_calculator, lines_for_this_part) \<Rightarrow>
             (case parts styled_lines line_heights current_line_index' of
                Inl e \<Rightarrow> Inl e
              | Inr rest \<Rightarrow>
                  Inr (\<lparr>part_start_index = current_line_index, part_lines = lines_for_this_part,
                        part_height = part_height_calculator + PADDING\<rparr> # rest)))
      else Inr [])"
  by pat_completeness auto
termination
proof (relation "measure (\<lambda>(styled_lines, line_heights, current_line_index).
        length styled_lines - current_line_index)")
  show "wf (measure (\<lambda>(styled_lines, line_heights, current_line_index).
        length styled_lines - current_line_index))"
    by simp
next
  fix styled_lines :: "string list" and line_heights :: "int list" and current_line_index :: nat
    and x2 :: "nat \<times> int \<times> string list" and i' :: nat and y :: "int \<times> string list"
    and h' :: int and p' :: "string list"
  assume "current_line_index < length styled_lines"
    and "inner_loop styled_lines line_heights current_line_index PADDING [] = Inr x2"
    and "(i', y) = x2" and "(h', p') = y"
  then have "current_line_index < i'"
    using inner_loop_first_line [of current_line_index styled_lines line_heights PADDING i' h' p']
    by simp
  with \<open>current_line_index < length styled_lines\<close>
  show "((styled_lines, line_heights, i'), (styled_lines, line_heights, current_line_index))
        \<in> measure (\<lambda>(styled_lines, line_heights, current_line_index).
            length styled_lines - current_line_index)"
    by simp
qed

declare parts.simps [simp del]

text \<open>
  The image of a part as lines 98 to 113 build it: where each line is drawn
  (\<open>y_text\<close> before each line, from the heights of the part's lines), and the calls.
\<close>

fun line_positions :: "int list \<Rightarrow> int \<Rightarrow> int list" where
  "line_positions [] y_text = []"
| "line_positions (height # rest) y_text =
     y_text # line_positions rest (y_text + (height + LINE_SPACING))"

definition part_positions :: "int list \<Rightarrow> part \<Rightarrow> int list" where
  "part_positions line_heights p =
     line_positions (take (length (part_lines p)) (drop (part_start_index p) line_heights)) PADDING"

definition part_image :: "draw \<Rightarrow> int list \<Rightarrow> int \<Rightarrow> part \<Rightarrow> image" where
  "part_image d line_heights img_width p =
     \<lparr>img_size = (img_width, part_height p), img_color = BG_COLOR,
      img_calls = concat (map2 (draw_line d) (part_positions line_heights p) (part_lines p))\<rparr>"

text \<open>
  Lines 116 to 120 for a list of parts: what saving them one after the other, numbered
  from \<open>part_number\<close>, does to the environment.
\<close>

fun save_parts :: "draw \<Rightarrow> int list \<Rightarrow> int \<Rightarrow> nat \<Rightarrow> part list \<Rightarrow> world \<Rightarrow> world" where
  "save_parts d line_heights img_width part_number [] w = w"
| "save_parts d line_heights img_width part_number (p # rest) w =
     save_parts d line_heights img_width (part_number + 1) rest
       (w\<lparr>saved := saved w @ [(output_filename part_number, part_image d line_heights img_width p)],
          stdout := stdout w @ [saved_message part_number]\<rparr>)"

definition main_parts :: "draw \<Rightarrow> string list \<Rightarrow> py_error + part list" where
  "main_parts d lines = parts (main_styled_lines lines) (main_line_heights d lines) 0"

text \<open>
  The height the lines of a part add to it, and the part that holds the lines from
  index \<open>i\<close> up to, not including, index \<open>i'\<close>.
\<close>

definition lines_height :: "int list \<Rightarrow> int" where
  "lines_height heights = sum_list (map (\<lambda>height. height + LINE_SPACING) heights)"

definition slice_part :: "string list \<Rightarrow> int list \<Rightarrow> nat \<Rightarrow> nat \<Rightarrow> part" where
  "slice_part ls hs i i' =
     \<lparr>part_start_index = i, part_lines = take (i' - i) (drop i ls),
      part_height = PADDING + lines_height (take (i' - i) (drop i hs)) + PADDING\<rparr>"

section \<open>The reference algorithm of the specification\<close>

text \<open>
  Section 4.2 of the specification, in its words and with its parameters: a page starts
  at \<open>current_index\<close> with the running height \<open>padding\<close>; repeatedly,
  \<open>line_h = height[current_index] + line_spacing\<close>; if
  \<open>running_height + line_h > max_page_height\<close> and the page already has at least one
  line, the page is full and \<open>current_index\<close> stays; otherwise the line is added,
  \<open>line_h\<close> is added to the running height and \<open>current_index\<close> advances. The page's
  height is the running height plus \<open>padding\<close>. Pages are started while
  \<open>current_index < line_count\<close>; that a page also ends when no line is left is not
  said there and is understood. A page is a \<open>part\<close>: its start index, its lines and its
  total height.
\<close>

function spec_fill_page ::
  "int \<Rightarrow> int \<Rightarrow> string list \<Rightarrow> int list \<Rightarrow> nat \<Rightarrow> int \<Rightarrow> string list \<Rightarrow> nat \<times> int \<times> string list"
where
  "spec_fill_page line_spacing max_page_height displayed_lines height current_index running_height page =
     (if current_index < length displayed_lines then
        (let line_h = height ! current_index + line_spacing in
         if running_height + line_h > max_page_height \<and> 1 \<le> length page
         then (current_index, running_height, page)
         else spec_fill_page line_spacing max_page_height displayed_lines height (current_index + 1)
                (running_height + line_h) (page @ [displayed_lines ! current_index]))
      else (current_index, running_height, page))"
  by pat_completeness auto
termination
  by (relation "measure (\<lambda>(line_spacing, max_page_height, displayed_lines, height, current_index,
        running_height, page). length displayed_lines - current_index)") auto

declare spec_fill_page.simps [simp del]

lemma spec_fill_page_index_mono:
  "current_index \<le> fst (spec_fill_page ls mh displayed_lines height current_index running page)"
proof (induction ls mh displayed_lines height current_index running page rule: spec_fill_page.induct)
  case (1 ls mh displayed_lines height current_index running page)
  show ?case
  proof (cases "current_index < length displayed_lines \<and>
      \<not> (running + (height ! current_index + ls) > mh \<and> 1 \<le> length page)")
    case True
    then have "Suc current_index \<le> fst (spec_fill_page ls mh displayed_lines height
        (current_index + 1) (running + (height ! current_index + ls))
        (page @ [displayed_lines ! current_index]))"
      using "1.IH" [OF _ refl] by auto
    with True show ?thesis
      by (subst spec_fill_page.simps) (auto simp: Let_def)
  next
    case False
    then show ?thesis
      by (subst spec_fill_page.simps) (auto simp: Let_def)
  qed
qed

lemma spec_fill_page_first_line:
  assumes "current_index < length displayed_lines"
  shows "current_index < fst (spec_fill_page ls mh displayed_lines height current_index running [])"
proof -
  have "Suc current_index \<le> fst (spec_fill_page ls mh displayed_lines height (current_index + 1)
      (running + (height ! current_index + ls)) ([] @ [displayed_lines ! current_index]))"
    using spec_fill_page_index_mono [of "current_index + 1"] by simp
  with assms show ?thesis
    by (subst spec_fill_page.simps) (simp add: Let_def)
qed

function spec_paginate ::
  "int \<Rightarrow> int \<Rightarrow> int \<Rightarrow> string list \<Rightarrow> int list \<Rightarrow> nat \<Rightarrow> part list"
where
  "spec_paginate padding line_spacing max_page_height displayed_lines height current_index =
     (if current_index < length displayed_lines then
        (case spec_fill_page line_spacing max_page_height displayed_lines height current_index padding [] of
           (current_index', running_height, page) \<Rightarrow>
             \<lparr>part_start_index = current_index, part_lines = page,
              part_height = running_height + padding\<rparr>
             # spec_paginate padding line_spacing max_page_height displayed_lines height current_index')
      else [])"
  by pat_completeness auto
termination
proof (relation "measure (\<lambda>(padding, line_spacing, max_page_height, displayed_lines, height,
        current_index). length displayed_lines - current_index)")
  show "wf (measure (\<lambda>(padding, line_spacing, max_page_height, displayed_lines, height,
        current_index). length displayed_lines - current_index))"
    by simp
next
  fix padding line_spacing max_page_height :: int and displayed_lines :: "string list"
    and height :: "int list" and current_index :: nat
    and i' :: nat and y :: "int \<times> string list"
  assume inrange: "current_index < length displayed_lines"
    and "(i', y) = spec_fill_page line_spacing max_page_height displayed_lines height
      current_index padding []"
  then have "i' = fst (spec_fill_page line_spacing max_page_height displayed_lines height
      current_index padding [])"
    by (metis fst_conv)
  with spec_fill_page_first_line [OF inrange] have "current_index < i'"
    by simp
  with inrange
  show "((padding, line_spacing, max_page_height, displayed_lines, height, i'),
         (padding, line_spacing, max_page_height, displayed_lines, height, current_index))
        \<in> measure (\<lambda>(padding, line_spacing, max_page_height, displayed_lines, height,
            current_index). length displayed_lines - current_index)"
    by simp
qed

declare spec_paginate.simps [simp del]

section \<open>Concrete runs\<close>

text \<open>
  A drawing context whose font is 9 pixels wide for each character and gives every
  line the same height, and environments with an empty output directory: one without
  the input file, one holding the given lines.
\<close>

definition fixed_height_draw :: "int \<Rightarrow> draw" where
  "fixed_height_draw height = Textsize (\<lambda>text. (9 * int (length text), height))"

definition missing_input_world :: world where
  "missing_input_world = \<lparr>fs_paths = {}, transcript = None, saved = [], stdout = [], stderr = []\<rparr>"

definition input_world :: "string list \<Rightarrow> world" where
  "input_world lines = \<lparr>fs_paths = {}, transcript = Some lines, saved = [], stdout = [], stderr = []\<rparr>"

text \<open>
  Two inputs: three commands and a line of output, and three commands followed by a line
  that itself starts with the prompt string.
\<close>

definition example_lines :: "string list" where
  "example_lines = [''ls -la'', ''cd /tmp'', ''whoami'', ''root'']"

definition prompt_at_index_3 :: "string list" where
  "prompt_at_index_3 = [''make'', ''make test'', ''git log'', ''$ exit'']"

section \<open>Properties of the loops\<close>

lemma list_index_inrange: "i < length xs \<Longrightarrow> list_index xs i = Inr (xs ! i)"
  by (simp add: list_index_def)

lemma take_drop_step:
  assumes "i < length xs" and "i < i'"
  shows "take (i' - i) (drop i xs) = xs ! i # take (i' - Suc i) (drop (Suc i) xs)"
proof -
  from assms(2) have "i' - i = Suc (i' - Suc i)" by simp
  moreover from assms(1) have "drop i xs = xs ! i # drop (Suc i) xs"
    by (simp add: Cons_nth_drop_Suc)
  ultimately show ?thesis by simp
qed

lemma inner_loop_end:
  "\<not> i < length ls \<Longrightarrow> inner_loop ls hs i h p = Inr (i, h, p)"
  by (subst inner_loop.simps) simp

lemma inner_loop_stop:
  assumes "i < length ls" and "list_index hs i = Inr height"
    and "h + (height + LINE_SPACING) > MAX_IMAGE_HEIGHT" and "p \<noteq> []"
  shows "inner_loop ls hs i h p = Inr (i, h, p)"
  using assms by (subst inner_loop.simps) (simp add: Let_def)

lemma inner_loop_add:
  assumes "i < length ls" and "list_index hs i = Inr height"
    and "\<not> (h + (height + LINE_SPACING) > MAX_IMAGE_HEIGHT \<and> p \<noteq> [])"
  shows "inner_loop ls hs i h p =
    inner_loop ls hs (i + 1) (h + (height + LINE_SPACING)) (p @ [ls ! i])"
  using assms by (subst inner_loop.simps) (auto simp: Let_def)

lemma inner_loop_result:
  assumes "length hs = length ls" and "i \<le> length ls"
  shows "\<exists>i'. i \<le> i' \<and> i' \<le> length ls \<and>
    inner_loop ls hs i h p =
      Inr (i', h + lines_height (take (i' - i) (drop i hs)), p @ take (i' - i) (drop i ls))"
  using assms
proof (induction ls hs i h p rule: inner_loop.induct)
  case (1 ls hs i h p)
  show ?case
  proof (cases "i < length ls")
    case False
    then have "inner_loop ls hs i h p = Inr (i, h, p)"
      by (rule inner_loop_end)
    with "1.prems" show ?thesis
      by (intro exI [of _ i]) (simp add: lines_height_def)
  next
    case True
    with "1.prems" have idx: "list_index hs i = Inr (hs ! i)"
      by (simp add: list_index_inrange)
    show ?thesis
    proof (cases "h + (hs ! i + LINE_SPACING) > MAX_IMAGE_HEIGHT \<and> p \<noteq> []")
      case True
      with \<open>i < length ls\<close> idx have "inner_loop ls hs i h p = Inr (i, h, p)"
        by (simp add: inner_loop_stop)
      with "1.prems" show ?thesis
        by (intro exI [of _ i]) (simp add: lines_height_def)
    next
      case False
      with \<open>i < length ls\<close> idx
      have unfold: "inner_loop ls hs i h p =
          inner_loop ls hs (i + 1) (h + (hs ! i + LINE_SPACING)) (p @ [ls ! i])"
        by (rule inner_loop_add)
      from "1.IH" [OF \<open>i < length ls\<close> idx refl False] "1.prems" \<open>i < length ls\<close>
      obtain i' where i': "i + 1 \<le> i'" "i' \<le> length ls"
        and res: "inner_loop ls hs (i + 1) (h + (hs ! i + LINE_SPACING)) (p @ [ls ! i]) =
          Inr (i', h + (hs ! i + LINE_SPACING) + lines_height (take (i' - (i + 1)) (drop (i + 1) hs)),
               (p @ [ls ! i]) @ take (i' - (i + 1)) (drop (i + 1) ls))"
        by auto
      from i' \<open>i < length ls\<close> "1.prems"
      have "take (i' - i) (drop i ls) = ls ! i # take (i' - Suc i) (drop (Suc i) ls)"
        and "take (i' - i) (drop i hs) = hs ! i # take (i' - Suc i) (drop (Suc i) hs)"
        by (simp_all add: take_drop_step)
      with unfold res i' show ?thesis
        by (intro exI [of _ i']) (simp add: lines_height_def)
    qed
  qed
qed

lemma draw_loop_calls:
  assumes "s + i + length lines \<le> length hs"
  shows "draw_loop d hs s i lines y calls =
    Inr (calls @ concat (map2 (draw_line d)
      (line_positions (take (length lines) (drop (s + i) hs)) y) lines))"
  using assms
proof (induction lines arbitrary: i y calls)
  case Nil
  then show ?case by simp
next
  case (Cons line rest)
  then have inrange: "s + i < length hs" by simp
  then have "take (length (line # rest)) (drop (s + i) hs) =
      hs ! (s + i) # take (length rest) (drop (s + (i + 1)) hs)"
    by (simp add: Cons_nth_drop_Suc [symmetric])
  moreover from Cons.prems have "s + (i + 1) + length rest \<le> length hs" by simp
  note Cons.IH [OF this]
  ultimately show ?case
    using inrange by (simp add: list_index_inrange Let_def)
qed


lemma parts_end: "\<not> i < length ls \<Longrightarrow> parts ls hs i = Inr []"
  by (subst parts.simps) simp

lemma inner_loop_first:
  assumes "length hs = length ls" and "i < length ls"
  obtains i' where "i < i'" and "i' \<le> length ls"
    and "inner_loop ls hs i PADDING [] =
      Inr (i', PADDING + lines_height (take (i' - i) (drop i hs)), take (i' - i) (drop i ls))"
proof -
  from inner_loop_result [of hs ls i PADDING "[]"] assms
  obtain i' where "i' \<le> length ls"
    and res: "inner_loop ls hs i PADDING [] =
      Inr (i', PADDING + lines_height (take (i' - i) (drop i hs)), take (i' - i) (drop i ls))"
    by auto
  moreover from assms(2) res have "i < i'" by (rule inner_loop_first_line)
  ultimately show ?thesis by (rule that [rotated])
qed

lemma parts_step:
  assumes "i < length ls"
    and "inner_loop ls hs i PADDING [] =
      Inr (i', PADDING + lines_height (take (i' - i) (drop i hs)), take (i' - i) (drop i ls))"
    and "parts ls hs i' = Inr rest"
  shows "parts ls hs i = Inr (slice_part ls hs i i' # rest)"
  using assms by (subst parts.simps) (simp add: slice_part_def)

lemma parts_slices:
  assumes "length hs = length ls" and "i \<le> length ls"
  shows "\<exists>cuts. parts ls hs i = Inr (map2 (slice_part ls hs) (i # cuts) cuts)
    \<and> sorted_wrt (<) (i # cuts) \<and> (\<forall>c \<in> set cuts. c \<le> length ls)
    \<and> last (i # cuts) = length ls"
  using assms
proof (induction "length ls - i" arbitrary: i rule: less_induct)
  case less
  show ?case
  proof (cases "i < length ls")
    case False
    with less.prems have "i = length ls" by simp
    with False show ?thesis
      by (intro exI [of _ "[]"]) (simp add: parts_end)
  next
    case True
    with less.prems obtain i' where i': "i < i'" "i' \<le> length ls"
      and inner: "inner_loop ls hs i PADDING [] =
        Inr (i', PADDING + lines_height (take (i' - i) (drop i hs)), take (i' - i) (drop i ls))"
      by (auto elim: inner_loop_first)
    from i' have "length ls - i' < length ls - i" by simp
    from less.hyps [OF this less.prems(1) i'(2)]
    obtain cuts where rest: "parts ls hs i' = Inr (map2 (slice_part ls hs) (i' # cuts) cuts)"
      and cuts: "sorted_wrt (<) (i' # cuts)" "\<forall>c \<in> set cuts. c \<le> length ls"
        "last (i' # cuts) = length ls"
      by blast
    from parts_step [OF True inner rest]
    have "parts ls hs i = Inr (map2 (slice_part ls hs) (i # i' # cuts) (i' # cuts))"
      by simp
    moreover from cuts i' have "sorted_wrt (<) (i # i' # cuts)" by auto
    moreover from cuts i' have "\<forall>c \<in> set (i' # cuts). c \<le> length ls" by simp
    moreover from cuts have "last (i # i' # cuts) = length ls" by simp
    ultimately show ?thesis
      by (intro exI [of _ "i' # cuts"]) blast
  qed
qed


lemma outer_loop_end: "\<not> i < length ls \<Longrightarrow> outer_loop d ls hs W n i w = (Returned, w)"
  by (subst outer_loop.simps) simp

lemma outer_loop_step:
  assumes "i < length ls"
    and "inner_loop ls hs i PADDING [] = Inr (i', h, p)"
    and "draw_loop d hs i 0 p PADDING [] = Inr calls"
  shows "outer_loop d ls hs W n i w =
    outer_loop d ls hs W (n + 1) i'
      (w\<lparr>saved := saved w @ [(output_filename n,
             \<lparr>img_size = (W, h + PADDING), img_color = BG_COLOR, img_calls = calls\<rparr>)],
         stdout := stdout w @ [saved_message n]\<rparr>)"
  using assms
  by (subst outer_loop.simps) (simp add: Let_def output_filename_def saved_message_def)

lemma outer_loop_saves_parts:
  assumes "length hs = length ls" and "i \<le> length ls"
  shows "\<exists>ps. parts ls hs i = Inr ps
    \<and> outer_loop d ls hs W n i w = (Returned, save_parts d hs W n ps w)"
  using assms
proof (induction "length ls - i" arbitrary: i n w rule: less_induct)
  case less
  show ?case
  proof (cases "i < length ls")
    case False
    then show ?thesis
      by (simp add: parts_end outer_loop_end)
  next
    case True
    with less.prems obtain i' where i': "i < i'" "i' \<le> length ls"
      and inner: "inner_loop ls hs i PADDING [] =
        Inr (i', PADDING + lines_height (take (i' - i) (drop i hs)), take (i' - i) (drop i ls))"
      by (auto elim: inner_loop_first)
    define p where "p = slice_part ls hs i i'"
    define w' where "w' = w\<lparr>saved := saved w @ [(output_filename n, part_image d hs W p)],
      stdout := stdout w @ [saved_message n]\<rparr>"
    from i' have len: "length (take (i' - i) (drop i ls)) = i' - i" by simp
    with i' less.prems(1)
    have "i + 0 + length (take (i' - i) (drop i ls)) \<le> length hs" by simp
    from draw_loop_calls [OF this, of d PADDING "[]"] len
    have draw: "draw_loop d hs i 0 (take (i' - i) (drop i ls)) PADDING [] =
        Inr (img_calls (part_image d hs W p))"
      by (simp add: part_image_def part_positions_def p_def slice_part_def)
    have img: "\<lparr>img_size = (W, PADDING + lines_height (take (i' - i) (drop i hs)) + PADDING),
        img_color = BG_COLOR, img_calls = img_calls (part_image d hs W p)\<rparr> = part_image d hs W p"
      by (simp add: part_image_def p_def slice_part_def)
    from outer_loop_step [OF True inner draw, of W n w] img
    have outer: "outer_loop d ls hs W n i w = outer_loop d ls hs W (n + 1) i' w'"
      by (simp add: w'_def)
    from i' have "length ls - i' < length ls - i" by simp
    from less.hyps [OF this less.prems(1) i'(2), of "n + 1" w']
    obtain rest where rest: "parts ls hs i' = Inr rest"
      and run: "outer_loop d ls hs W (n + 1) i' w' = (Returned, save_parts d hs W (n + 1) rest w')"
      by blast
    from parts_step [OF True inner rest] have "parts ls hs i = Inr (p # rest)"
      by (simp add: p_def)
    moreover from outer run
    have "outer_loop d ls hs W n i w = (Returned, save_parts d hs W n (p # rest) w)"
      by (simp add: w'_def)
    ultimately show ?thesis by blast
  qed
qed

lemma save_parts_saved:
  "saved (save_parts d hs W n ps w) =
     saved w @ map2 (\<lambda>k p. (output_filename k, part_image d hs W p)) [n..<n + length ps] ps"
proof (induction ps arbitrary: n w)
  case Nil
  show ?case by simp
next
  case (Cons p ps)
  have "[n..<n + length (p # ps)] = n # [Suc n..<n + length (p # ps)]"
    by (rule upt_conv_Cons) simp
  then have "[n..<n + length (p # ps)] = n # [n + 1..<n + 1 + length ps]"
    by simp
  with Cons.IH [of "n + 1"] show ?case by simp
qed

lemma save_parts_stdout:
  "stdout (save_parts d hs W n ps w) = stdout w @ map saved_message [n..<n + length ps]"
proof (induction ps arbitrary: n w)
  case Nil
  show ?case by simp
next
  case (Cons p ps)
  have "[n..<n + length (p # ps)] = n # [Suc n..<n + length (p # ps)]"
    by (rule upt_conv_Cons) simp
  then have "[n..<n + length (p # ps)] = n # [n + 1..<n + 1 + length ps]"
    by simp
  with Cons.IH [of "n + 1"] show ?case by simp
qed

lemma save_parts_others:
  "fs_paths (save_parts d hs W n ps w) = fs_paths w"
  "transcript (save_parts d hs W n ps w) = transcript w"
  "stderr (save_parts d hs W n ps w) = stderr w"
  by (induction ps arbitrary: n w) simp_all



lemma style_loop_map:
  "style_loop i lines acc =
     acc @ map2 (\<lambda>j line. if j < 3 then PROMPT @ line else line) [i..<i + length lines] lines"
proof (induction lines arbitrary: i acc)
  case Nil
  show ?case by simp
next
  case (Cons line rest)
  have "[i..<i + length (line # rest)] = i # [Suc i..<i + length (line # rest)]"
    by (rule upt_conv_Cons) simp
  then have "[i..<i + length (line # rest)] = i # [i + 1..<i + 1 + length rest]"
    by simp
  with Cons.IH [of "i + 1"] show ?case by simp
qed

lemma length_main_styled_lines: "length (main_styled_lines lines) = length lines"
  by (simp add: main_styled_lines_def style_loop_map)

lemma nth_main_styled_lines:
  assumes "i < length lines"
  shows "main_styled_lines lines ! i = (if i < 3 then PROMPT @ lines ! i else lines ! i)"
  using assms by (simp add: main_styled_lines_def style_loop_map)

lemma measure_loop_heights:
  "snd (measure_loop d ls mw hs) = hs @ map (\<lambda>line. snd (get_text_size d line)) ls"
  by (induction ls arbitrary: mw hs) (simp_all split: prod.split)

lemma measure_loop_width:
  "fst (measure_loop d ls mw hs) = Max (insert mw (set (map (\<lambda>line. fst (get_text_size d line)) ls)))"
proof (induction ls arbitrary: mw hs)
  case Nil
  show ?case by simp
next
  case (Cons line rest)
  obtain width height where size: "get_text_size d line = (width, height)"
    by (cases "get_text_size d line")
  let ?W = "set (map (\<lambda>line. fst (get_text_size d line)) rest)"
  have "Max (insert (max mw width) ?W) = Max (insert mw (insert width ?W))"
    by (cases "?W = {}") (simp_all add: max.assoc)
  with Cons.IH size show ?case
    by simp
qed

lemma length_main_line_heights:
  "length (main_line_heights d lines) = length (main_styled_lines lines)"
  by (simp add: main_line_heights_def measure_loop_heights)

lemma dirname_OUTPUT_FILE_PREFIX: "dirname OUTPUT_FILE_PREFIX = ''output''"
  by (simp add: dirname_def OUTPUT_FILE_PREFIX_def rstrip_sep_def)

lemma ensure_output_dir_fields:
  "transcript (ensure_output_dir w) = transcript w"
  "saved (ensure_output_dir w) = saved w"
  "stdout (ensure_output_dir w) = stdout w"
  "stderr (ensure_output_dir w) = stderr w"
  by (simp_all add: ensure_output_dir_def Let_def)

lemma fs_paths_ensure_output_dir:
  "fs_paths (ensure_output_dir w) = insert ''output'' (fs_paths w)"
  by (auto simp: ensure_output_dir_def Let_def dirname_OUTPUT_FILE_PREFIX makedirs_def)

lemma main_parts_total:
  obtains ps where "main_parts d lines = Inr ps"
  using parts_slices [OF length_main_line_heights, of 0 lines d]
  by (auto simp: main_parts_def)

lemma main_with_input:
  assumes "transcript w = Some lines" and "main_parts d lines = Inr ps"
  shows "main d w = (Returned, save_parts d (main_line_heights d lines)
         (main_max_width d lines + PADDING * 2) 1 ps (ensure_output_dir w))"
proof -
  have "transcript (ensure_output_dir w) = Some lines"
    using assms(1) by (simp add: ensure_output_dir_fields)
  then have "main d w = outer_loop d (main_styled_lines lines) (main_line_heights d lines)
      (main_max_width d lines + PADDING * 2) 1 0 (ensure_output_dir w)"
    by (simp add: main_def Let_def main_styled_lines_def
        main_line_heights_def main_max_width_def split: prod.split)
  with outer_loop_saves_parts [OF length_main_line_heights, of 0 lines d d
      "main_max_width d lines + PADDING * 2" 1 "ensure_output_dir w"] assms(2)
  show ?thesis
    by (auto simp: main_parts_def)
qed

lemma map_snd_map2:
  "length ks = length ps \<Longrightarrow> map snd (map2 (\<lambda>k p. (f k, g p)) ks ps) = map g ps"
  by (induction ks ps rule: list_induct2) simp_all

lemma new_images_parts:
  assumes "transcript w = Some lines" and "main_parts d lines = Inr ps"
  shows "new_images d w =
    map (part_image d (main_line_heights d lines) (main_max_width d lines + PADDING * 2)) ps"
proof -
  let ?named = "map2 (\<lambda>k p. (output_filename k,
      part_image d (main_line_heights d lines) (main_max_width d lines + PADDING * 2) p))
      [1..<1 + length ps] ps"
  from main_with_input [OF assms]
  have "saved (snd (main d w)) = saved w @ ?named"
    by (simp only: save_parts_saved ensure_output_dir_fields snd_conv)
  then have "new_images d w = map snd ?named"
    by (simp add: new_images_def)
  also have "\<dots> = map (part_image d (main_line_heights d lines)
      (main_max_width d lines + PADDING * 2)) ps"
    by (rule map_snd_map2) (simp only: length_upt add_diff_cancel_left')
  finally show ?thesis .
qed



lemma part_lines_slice: "part_lines (slice_part ls hs a b) = take (b - a) (drop a ls)"
  by (simp add: slice_part_def)

lemma first_le_last:
  fixes c :: nat
  assumes "sorted_wrt (<) (c # cuts)"
  shows "c \<le> last (c # cuts)"
proof (cases cuts)
  case Nil
  then show ?thesis by simp
next
  case (Cons x xs)
  then have "last (c # cuts) \<in> set cuts" by simp
  with assms show ?thesis by (auto simp: less_imp_le)
qed

lemma take_slices:
  fixes i c n :: nat
  assumes "i \<le> c" and "c \<le> n"
  shows "take (c - i) (drop i xs) @ take (n - c) (drop c xs) = take (n - i) (drop i xs)"
proof -
  from assms have "n - i = (c - i) + (n - c)" by simp
  then have "take (n - i) (drop i xs) =
      take (c - i) (drop i xs) @ take (n - c) (drop (c - i) (drop i xs))"
    by (simp only: take_add)
  with assms(1) show ?thesis by simp
qed

lemma concat_slices:
  assumes "sorted_wrt (<) (i # cuts)"
  shows "concat (map part_lines (map2 (slice_part ls hs) (i # cuts) cuts)) =
    take (last (i # cuts) - i) (drop i ls)"
  using assms
proof (induction cuts arbitrary: i)
  case Nil
  then show ?case by simp
next
  case (Cons c cuts)
  then have rest: "sorted_wrt (<) (c # cuts)" and "i \<le> c" by auto
  moreover from rest have "c \<le> last (c # cuts)" by (rule first_le_last)
  ultimately have "take (c - i) (drop i ls) @ take (last (c # cuts) - c) (drop c ls) =
      take (last (c # cuts) - i) (drop i ls)"
    by (intro take_slices)
  with Cons.IH [OF rest] show ?case
    by (simp add: part_lines_slice)
qed

lemma length_cuts:
  fixes i n :: nat
  assumes "sorted_wrt (<) (i # cuts)" and "\<forall>c \<in> set cuts. c \<le> n"
  shows "length cuts \<le> n - i"
  using assms
proof (induction cuts arbitrary: i)
  case Nil
  then show ?case by simp
next
  case (Cons c cuts)
  then have "length cuts \<le> n - c" and "i < c" and "c \<le> n" by auto
  then show ?case by simp
qed

lemma slices_nonempty:
  assumes "sorted_wrt (<) (i # cuts)" and "\<forall>c \<in> set cuts. c \<le> length ls"
  shows "list_all (\<lambda>p. part_lines p \<noteq> []) (map2 (slice_part ls hs) (i # cuts) cuts)"
  using assms
proof (induction cuts arbitrary: i)
  case Nil
  then show ?case by simp
next
  case (Cons c cuts)
  then have "i < c" and "c \<le> length ls" by auto
  then have "take (c - i) (drop i ls) \<noteq> []" by simp
  with Cons show ?case
    by (simp add: part_lines_slice)
qed

lemma fixed_height_draw_nonneg: "\<forall>text. 0 \<le> fst (get_text_size (fixed_height_draw height) text)"
  by (simp add: fixed_height_draw_def)

lemma example_styled_lines:
  "main_styled_lines example_lines = [''$ ls -la'', ''$ cd /tmp'', ''$ whoami'', ''root'']"
  by (simp add: main_styled_lines_def example_lines_def PROMPT_def)

section \<open>The missing input file\<close>

text \<open>
  C9. When the input file is missing, \<open>main\<close> prints the diagnostic on the error
  stream, leaves through \<open>sys.exit(1)\<close>, a status that is not zero, and saves no image.
\<close>

theorem missing_input_exits_nonzero:
  assumes "transcript w = None"
  shows "fst (main d w) = SystemExit 1 \<and> (1 :: int) \<noteq> 0
    \<and> stderr (snd (main d w)) =
        stderr w @ [''Error: Input file '' @ [CHR 0x27] @ INPUT_FILE @ [CHR 0x27] @ '' not found.'']
    \<and> saved (snd (main d w)) = saved w
    \<and> stdout (snd (main d w)) = stdout w"
  using assms by (simp add: main_def Let_def ensure_output_dir_fields)

theorem missing_input_exits_nonzero_witness:
  "transcript missing_input_world = None
   \<and> main (fixed_height_draw 14) missing_input_world =
       (SystemExit 1,
        \<lparr>fs_paths = {''output''}, transcript = None, saved = [], stdout = [],
         stderr = [''Error: Input file '' @ [CHR 0x27] @ ''output/live_run.txt'' @ [CHR 0x27]
                    @ '' not found.'']\<rparr>)"
proof -
  have missing: "transcript missing_input_world = None"
    by (simp add: missing_input_world_def)
  from missing_input_exits_nonzero [OF missing, of "fixed_height_draw 14"]
  have "fst (main (fixed_height_draw 14) missing_input_world) = SystemExit 1"
    by simp
  moreover have "snd (main (fixed_height_draw 14) missing_input_world) =
      \<lparr>fs_paths = {''output''}, transcript = None, saved = [], stdout = [],
       stderr = [''Error: Input file '' @ [CHR 0x27] @ ''output/live_run.txt'' @ [CHR 0x27]
                  @ '' not found.'']\<rparr>"
    by (simp add: main_def Let_def ensure_output_dir_def missing_input_world_def
        dirname_OUTPUT_FILE_PREFIX makedirs_def INPUT_FILE_def)
  ultimately show ?thesis
    using missing by (simp add: prod_eq_iff)
qed

text \<open>
  C10. The output directory is made before the input file is opened: the prefix has the
  directory part \<open>output\<close>, and when that path does not exist and the input file is
  missing, the run ends with status 1 in an environment where the directory exists.
\<close>

theorem output_dir_created_before_open:
  assumes "transcript w = None" and "dirname OUTPUT_FILE_PREFIX \<notin> fs_paths w"
  shows "dirname OUTPUT_FILE_PREFIX = ''output'' \<and> fst (main d w) = SystemExit 1
    \<and> fs_paths (snd (main d w)) = insert ''output'' (fs_paths w)"
  using assms
  by (simp add: main_def Let_def ensure_output_dir_fields fs_paths_ensure_output_dir
      dirname_OUTPUT_FILE_PREFIX)

theorem output_dir_created_before_open_witness:
  "transcript missing_input_world = None
   \<and> dirname OUTPUT_FILE_PREFIX \<notin> fs_paths missing_input_world
   \<and> fst (main (fixed_height_draw 14) missing_input_world) = SystemExit 1
   \<and> fs_paths (snd (main (fixed_height_draw 14) missing_input_world)) = {''output''}"
proof -
  have missing: "transcript missing_input_world = None"
    and absent: "dirname OUTPUT_FILE_PREFIX \<notin> fs_paths missing_input_world"
    by (simp_all add: missing_input_world_def)
  from output_dir_created_before_open [OF missing absent, of "fixed_height_draw 14"]
  show ?thesis
    using missing absent by (simp add: missing_input_world_def)
qed

section \<open>Pagination\<close>

text \<open>
  C2. For every input, the images of a run are those of its parts, in order, and the
  lines of the parts, one part after the other, are exactly the displayed lines: each
  once, in their order.
\<close>

theorem parts_concat_is_styled_lines:
  assumes "transcript w = Some lines"
  shows "\<exists>ps. main_parts d lines = Inr ps
    \<and> new_images d w =
        map (part_image d (main_line_heights d lines) (main_max_width d lines + PADDING * 2)) ps
    \<and> concat (map part_lines ps) = main_styled_lines lines"
proof -
  from parts_slices [OF length_main_line_heights, of 0 lines d]
  obtain cuts where ps: "main_parts d lines =
      Inr (map2 (slice_part (main_styled_lines lines) (main_line_heights d lines)) (0 # cuts) cuts)"
    and sorted: "sorted_wrt (<) (0 # cuts)"
    and last: "last (0 # cuts) = length (main_styled_lines lines)"
    by (auto simp: main_parts_def)
  from concat_slices [OF sorted, of "main_styled_lines lines" "main_line_heights d lines"] last
  have "concat (map part_lines
      (map2 (slice_part (main_styled_lines lines) (main_line_heights d lines)) (0 # cuts) cuts)) =
      main_styled_lines lines"
    by simp
  with ps new_images_parts [OF assms ps] show ?thesis by blast
qed

theorem parts_concat_is_styled_lines_witness:
  "transcript (input_world example_lines) = Some example_lines
   \<and> (\<exists>ps. main_parts (fixed_height_draw 14) example_lines = Inr ps
        \<and> concat (map part_lines ps) = [''$ ls -la'', ''$ cd /tmp'', ''$ whoami'', ''root''])"
proof -
  have input: "transcript (input_world example_lines) = Some example_lines"
    by (simp add: input_world_def)
  from parts_concat_is_styled_lines [OF input, of "fixed_height_draw 14"]
  obtain ps where "main_parts (fixed_height_draw 14) example_lines = Inr ps"
    and "concat (map part_lines ps) = main_styled_lines example_lines"
    by blast
  with input example_styled_lines show ?thesis
    by auto
qed

text \<open>
  C8. The run over an input of \<open>length lines\<close> lines ends by returning: every part
  holds at least one line, so there are at most \<open>length lines\<close> parts, and one image
  is saved for each.
\<close>

theorem pagination_terminates:
  assumes "transcript w = Some lines"
  shows "fst (main d w) = Returned
    \<and> (\<exists>ps. main_parts d lines = Inr ps \<and> list_all (\<lambda>p. part_lines p \<noteq> []) ps
          \<and> length ps \<le> length lines
          \<and> length (saved (snd (main d w))) = length (saved w) + length ps)"
proof -
  from parts_slices [OF length_main_line_heights, of 0 lines d]
  obtain cuts where ps: "main_parts d lines =
      Inr (map2 (slice_part (main_styled_lines lines) (main_line_heights d lines)) (0 # cuts) cuts)"
    and sorted: "sorted_wrt (<) (0 # cuts)"
    and bound: "\<forall>c \<in> set cuts. c \<le> length (main_styled_lines lines)"
    by (auto simp: main_parts_def)
  let ?ps = "map2 (slice_part (main_styled_lines lines) (main_line_heights d lines)) (0 # cuts) cuts"
  have "length ?ps = length cuts" by simp
  with length_cuts [OF sorted bound] have "length ?ps \<le> length lines"
    by (simp add: length_main_styled_lines)
  moreover note slices_nonempty [OF sorted bound, of "main_line_heights d lines"]
  moreover from main_with_input [OF assms ps]
  have "fst (main d w) = Returned"
    and "length (saved (snd (main d w))) = length (saved w) + length ?ps"
    by (simp_all add: save_parts_saved ensure_output_dir_fields del: upt_Suc)
  ultimately show ?thesis
    using ps by blast
qed

theorem pagination_terminates_witness:
  "transcript (input_world example_lines) = Some example_lines
   \<and> fst (main (fixed_height_draw 14) (input_world example_lines)) = Returned
   \<and> length (saved (snd (main (fixed_height_draw 14) (input_world example_lines)))) \<le> 4"
proof -
  have input: "transcript (input_world example_lines) = Some example_lines"
    by (simp add: input_world_def)
  from pagination_terminates [OF input, of "fixed_height_draw 14"]
  obtain ps :: "part list" where "fst (main (fixed_height_draw 14) (input_world example_lines)) = Returned"
    and "length ps \<le> length example_lines"
    and "length (saved (snd (main (fixed_height_draw 14) (input_world example_lines)))) =
      length (saved (input_world example_lines)) + length ps"
    by blast
  with input show ?thesis
    by (simp add: input_world_def example_lines_def)
qed

subsection \<open>The program against the reference algorithm\<close>

lemma spec_fill_page_end:
  "\<not> i < length ls \<Longrightarrow> spec_fill_page sp mh ls hs i h p = (i, h, p)"
  by (subst spec_fill_page.simps) simp

lemma spec_fill_page_stop:
  assumes "i < length ls" and "h + (hs ! i + sp) > mh" and "p \<noteq> []"
  shows "spec_fill_page sp mh ls hs i h p = (i, h, p)"
  using assms by (subst spec_fill_page.simps) (simp add: Let_def Suc_le_eq)

lemma spec_fill_page_add:
  assumes "i < length ls" and "\<not> (h + (hs ! i + sp) > mh \<and> p \<noteq> [])"
  shows "spec_fill_page sp mh ls hs i h p =
    spec_fill_page sp mh ls hs (i + 1) (h + (hs ! i + sp)) (p @ [ls ! i])"
  using assms by (subst spec_fill_page.simps) (auto simp: Let_def Suc_le_eq)

lemma inner_loop_is_spec_fill_page:
  assumes "length hs = length ls"
  shows "inner_loop ls hs i h p = Inr (spec_fill_page LINE_SPACING MAX_IMAGE_HEIGHT ls hs i h p)"
  using assms
proof (induction ls hs i h p rule: inner_loop.induct)
  case (1 ls hs i h p)
  consider (exhausted) "\<not> i < length ls"
    | (full) "i < length ls" "h + (hs ! i + LINE_SPACING) > MAX_IMAGE_HEIGHT" "p \<noteq> []"
    | (add) "i < length ls" "\<not> (h + (hs ! i + LINE_SPACING) > MAX_IMAGE_HEIGHT \<and> p \<noteq> [])"
    by blast
  then show ?case
  proof cases
    case exhausted
    then show ?thesis
      by (simp add: inner_loop_end spec_fill_page_end)
  next
    case full
    with "1.prems" show ?thesis
      by (simp add: inner_loop_stop [OF _ list_index_inrange] spec_fill_page_stop)
  next
    case add
    with "1.prems" have idx: "list_index hs i = Inr (hs ! i)"
      by (simp add: list_index_inrange)
    from "1.IH" [OF add(1) idx refl add(2) "1.prems"] show ?thesis
      by (simp add: inner_loop_add [OF add(1) idx add(2)] spec_fill_page_add [OF add])
  qed
qed

lemma spec_paginate_end:
  "\<not> i < length ls \<Longrightarrow> spec_paginate pad sp mh ls hs i = []"
  by (subst spec_paginate.simps) simp

lemma spec_paginate_step:
  assumes "i < length ls" and "spec_fill_page sp mh ls hs i pad [] = (i', h, p)"
  shows "spec_paginate pad sp mh ls hs i =
    \<lparr>part_start_index = i, part_lines = p, part_height = h + pad\<rparr>
    # spec_paginate pad sp mh ls hs i'"
  using assms by (subst spec_paginate.simps) simp

lemma parts_step_any:
  assumes "i < length ls" and "inner_loop ls hs i PADDING [] = Inr (i', h, p)"
    and "parts ls hs i' = Inr rest"
  shows "parts ls hs i =
    Inr (\<lparr>part_start_index = i, part_lines = p, part_height = h + PADDING\<rparr> # rest)"
  using assms by (subst parts.simps) simp

lemma parts_is_spec_paginate:
  assumes "length hs = length ls"
  shows "parts ls hs i = Inr (spec_paginate PADDING LINE_SPACING MAX_IMAGE_HEIGHT ls hs i)"
proof (induction "length ls - i" arbitrary: i rule: less_induct)
  case less
  show ?case
  proof (cases "i < length ls")
    case False
    then show ?thesis
      by (simp add: parts_end spec_paginate_end)
  next
    case True
    obtain i' h p where page:
      "spec_fill_page LINE_SPACING MAX_IMAGE_HEIGHT ls hs i PADDING [] = (i', h, p)"
      by (cases "spec_fill_page LINE_SPACING MAX_IMAGE_HEIGHT ls hs i PADDING []")
    with inner_loop_is_spec_fill_page [OF assms, of i PADDING "[]"]
    have inner: "inner_loop ls hs i PADDING [] = Inr (i', h, p)"
      by simp
    from True inner have "i < i'" by (rule inner_loop_first_line)
    with True have "length ls - i' < length ls - i" by simp
    then have "parts ls hs i' = Inr (spec_paginate PADDING LINE_SPACING MAX_IMAGE_HEIGHT ls hs i')"
      by (rule less.hyps)
    with True inner page show ?thesis
      by (simp add: parts_step_any spec_paginate_step)
  qed
qed

text \<open>
  C5. The pagination of the program is the reference algorithm of the specification with
  \<open>padding = PADDING\<close>, \<open>line_spacing = LINE_SPACING\<close> and
  \<open>max_page_height = MAX_IMAGE_HEIGHT\<close>: filling one page from any state gives the same
  index, running height and lines, and so the same pages follow from any index; \<open>main\<close>
  paginates its own lines and heights that way.
\<close>

theorem pagination_is_reference_algorithm:
  assumes "length line_heights = length displayed_lines"
  shows "inner_loop displayed_lines line_heights current_index running_height page =
      Inr (spec_fill_page LINE_SPACING MAX_IMAGE_HEIGHT displayed_lines line_heights
             current_index running_height page)
    \<and> parts displayed_lines line_heights current_index =
      Inr (spec_paginate PADDING LINE_SPACING MAX_IMAGE_HEIGHT displayed_lines line_heights
             current_index)
    \<and> main_parts d lines =
      Inr (spec_paginate PADDING LINE_SPACING MAX_IMAGE_HEIGHT (main_styled_lines lines)
             (main_line_heights d lines) 0)"
  using assms
  by (simp add: inner_loop_is_spec_fill_page parts_is_spec_paginate main_parts_def
      length_main_line_heights)

theorem pagination_is_reference_algorithm_witness:
  "length [14, 790, 14 :: int] = length [''a'', ''b'', ''c'']
   \<and> parts [''a'', ''b'', ''c''] [14, 790, 14] 0 =
       Inr (spec_paginate PADDING LINE_SPACING MAX_IMAGE_HEIGHT [''a'', ''b'', ''c''] [14, 790, 14] 0)
   \<and> spec_paginate 20 5 800 [''a'', ''b'', ''c''] [14, 790, 14] 0 =
       [\<lparr>part_start_index = 0, part_lines = [''a''], part_height = 59\<rparr>,
        \<lparr>part_start_index = 1, part_lines = [''b''], part_height = 835\<rparr>,
        \<lparr>part_start_index = 2, part_lines = [''c''], part_height = 59\<rparr>]"
proof -
  have len: "length [14, 790, 14 :: int] = length [''a'', ''b'', ''c'']" by simp
  have "spec_paginate 20 5 800 [''a'', ''b'', ''c''] [14, 790, 14] 0 =
       [\<lparr>part_start_index = 0, part_lines = [''a''], part_height = 59\<rparr>,
        \<lparr>part_start_index = 1, part_lines = [''b''], part_height = 835\<rparr>,
        \<lparr>part_start_index = 2, part_lines = [''c''], part_height = 59\<rparr>]"
    by code_simp
  with pagination_is_reference_algorithm [OF len, of 0] len show ?thesis
    by simp
qed

subsection \<open>The height of a part\<close>

text \<open>
  The height of a part is the top padding, the height and the spacing of each of its
  lines, and the bottom padding.
\<close>

lemma slices_height:
  assumes "sorted_wrt (<) (i # cuts)" and "\<forall>c \<in> set cuts. c \<le> length ls"
  shows "list_all (\<lambda>p. part_height p =
      PADDING + lines_height (take (length (part_lines p)) (drop (part_start_index p) hs)) + PADDING)
    (map2 (slice_part ls hs) (i # cuts) cuts)"
  using assms
proof (induction cuts arbitrary: i)
  case Nil
  then show ?case by simp
next
  case (Cons c cuts)
  then have "i < c" and "c \<le> length ls" by auto
  then have "length (take (c - i) (drop i ls)) = c - i" by simp
  with Cons show ?case
    by (simp add: slice_part_def)
qed

lemma main_parts_height:
  assumes "main_parts d lines = Inr ps"
  shows "list_all (\<lambda>p. part_height p =
      PADDING + lines_height (take (length (part_lines p))
        (drop (part_start_index p) (main_line_heights d lines))) + PADDING) ps"
proof -
  from parts_slices [OF length_main_line_heights, of 0 lines d] assms
  obtain cuts where "ps = map2 (slice_part (main_styled_lines lines) (main_line_heights d lines))
      (0 # cuts) cuts"
    and "sorted_wrt (<) (0 # cuts)"
    and "\<forall>c \<in> set cuts. c \<le> length (main_styled_lines lines)"
    by (auto simp: main_parts_def)
  with slices_height [of 0 cuts "main_styled_lines lines" "main_line_heights d lines"]
  show ?thesis by simp
qed

text \<open>
  What the inner loop keeps: once a part holds two lines or more, its running height,
  the top padding included, is at most \<open>MAX_IMAGE_HEIGHT\<close>. The bottom padding is added
  after the loop (line 95), so the image of such a part is at most
  \<open>MAX_IMAGE_HEIGHT + PADDING\<close> high.
\<close>

lemma inner_loop_height_invariant:
  assumes "inner_loop ls hs i h p = Inr (i', h', p')"
    and "2 \<le> length p \<longrightarrow> h \<le> MAX_IMAGE_HEIGHT"
  shows "2 \<le> length p' \<longrightarrow> h' \<le> MAX_IMAGE_HEIGHT"
  using assms
proof (induction ls hs i h p rule: inner_loop.induct)
  case (1 ls hs i h p)
  show ?case
  proof (cases "i < length ls")
    case False
    with "1.prems" show ?thesis
      by (simp add: inner_loop_end)
  next
    case True
    show ?thesis
    proof (cases "list_index hs i")
      case (Inl e)
      with True "1.prems"(1) show ?thesis
        by (simp add: inner_loop.simps [of ls hs i])
    next
      case (Inr height)
      show ?thesis
      proof (cases "h + (height + LINE_SPACING) > MAX_IMAGE_HEIGHT \<and> p \<noteq> []")
        case True
        with \<open>i < length ls\<close> Inr "1.prems" show ?thesis
          by (simp add: inner_loop_stop)
      next
        case False
        then have "2 \<le> length (p @ [ls ! i]) \<longrightarrow> h + (height + LINE_SPACING) \<le> MAX_IMAGE_HEIGHT"
          by (cases p) auto
        moreover from "1.prems"(1)
        have "inner_loop ls hs (i + 1) (h + (height + LINE_SPACING)) (p @ [ls ! i]) = Inr (i', h', p')"
          by (simp add: inner_loop_add [OF \<open>i < length ls\<close> Inr False])
        ultimately show ?thesis
          by (rule "1.IH" [OF \<open>i < length ls\<close> Inr refl False, rotated])
      qed
    qed
  qed
qed

lemma parts_height_bound:
  assumes "length hs = length ls" and "i \<le> length ls" and "parts ls hs i = Inr ps"
  shows "list_all (\<lambda>p. 2 \<le> length (part_lines p) \<longrightarrow> part_height p \<le> MAX_IMAGE_HEIGHT + PADDING) ps"
  using assms(2,3)
proof (induction "length ls - i" arbitrary: i ps rule: less_induct)
  case less
  show ?case
  proof (cases "i < length ls")
    case False
    with less.prems show ?thesis
      by (simp add: parts_end)
  next
    case True
    with assms(1) obtain i' where i': "i < i'" "i' \<le> length ls"
      and inner: "inner_loop ls hs i PADDING [] =
        Inr (i', PADDING + lines_height (take (i' - i) (drop i hs)), take (i' - i) (drop i ls))"
      by (auto elim: inner_loop_first)
    from parts_slices [OF assms(1) i'(2)] obtain rest where rest: "parts ls hs i' = Inr rest"
      by blast
    from i' have "length ls - i' < length ls - i" by simp
    from less.hyps [OF this i'(2) rest]
    have "list_all (\<lambda>p. 2 \<le> length (part_lines p) \<longrightarrow> part_height p \<le> MAX_IMAGE_HEIGHT + PADDING) rest" .
    moreover from inner_loop_height_invariant [OF inner]
    have "2 \<le> length (take (i' - i) (drop i ls)) \<longrightarrow>
        PADDING + lines_height (take (i' - i) (drop i hs)) \<le> MAX_IMAGE_HEIGHT"
      by simp
    moreover from parts_step [OF True inner rest] less.prems(2)
    have "ps = slice_part ls hs i i' # rest" by simp
    ultimately show ?thesis
      by (simp add: slice_part_def)
  qed
qed

lemma main_parts_height_bound:
  assumes "main_parts d lines = Inr ps"
  shows "list_all (\<lambda>p. 2 \<le> length (part_lines p) \<longrightarrow> part_height p \<le> MAX_IMAGE_HEIGHT + PADDING) ps"
  using parts_height_bound [OF length_main_line_heights _ assms [unfolded main_parts_def]]
  by simp

text \<open>
  C1. The height of the image of a part is to stay within \<open>MAX_IMAGE_HEIGHT\<close> unless
  the part is a single line that is too high by itself. In a run on 32 lines that each
  measure 20 pixels in height, the first part holds 31 lines and its image is 815 pixels
  high, above \<open>MAX_IMAGE_HEIGHT = 800\<close>: the test of the inner loop does not count
  the bottom padding.
\<close>

theorem part_image_exceeds_max_height:
  "map img_size (new_images (fixed_height_draw 20) (input_world (replicate 32 ''x''))) =
     [(67, 815), (67, 65)]
   \<and> map_sum id (map (\<lambda>p. length (part_lines p)))
         (main_parts (fixed_height_draw 20) (replicate 32 ''x'')) = Inr [31, 1]
   \<and> MAX_IMAGE_HEIGHT = 800"
  by code_simp

text \<open>
  C4. The scenario of 100 lines that each measure 20 pixels in height, with
  \<open>LINE_SPACING = 5\<close>, \<open>PADDING = 20\<close> and \<open>MAX_IMAGE_HEIGHT = 800\<close>, is to give
  parts of 30, 30, 30 and 10 lines. The run gives four parts of 31, 31, 31 and 7 lines,
  with images 815, 815, 815 and 215 pixels high.
\<close>

theorem hundred_lines_parts:
  "map_sum id (map (\<lambda>p. length (part_lines p)))
     (main_parts (fixed_height_draw 20) (replicate 100 ''x'')) = Inr [31, 31, 31, 7]
   \<and> map img_size (new_images (fixed_height_draw 20) (input_world (replicate 100 ''x''))) =
       [(67, 815), (67, 815), (67, 815), (67, 215)]
   \<and> LINE_SPACING = 5 \<and> PADDING = 20 \<and> MAX_IMAGE_HEIGHT = 800"
  by code_simp

section \<open>Measuring\<close>

lemma main_max_width_Max:
  "main_max_width d lines =
     Max (insert 0 (set (map (\<lambda>line. fst (get_text_size d line)) (main_styled_lines lines))))"
  by (simp add: main_max_width_def measure_loop_width)

lemma main_max_width_nonneg:
  assumes "\<forall>text. 0 \<le> fst (get_text_size d text)" and "lines \<noteq> []"
  shows "main_max_width d lines =
     Max (set (map (\<lambda>line. fst (get_text_size d line)) (main_styled_lines lines)))"
proof -
  let ?W = "set (map (\<lambda>line. fst (get_text_size d line)) (main_styled_lines lines))"
  from assms(2) have "main_styled_lines lines \<noteq> []"
    using length_main_styled_lines [of lines] by auto
  then have nonempty: "?W \<noteq> {}" by simp
  then have "Max ?W \<in> ?W" by (intro Max_in) simp_all
  with assms(1) have "0 \<le> Max ?W" by auto
  with nonempty show ?thesis
    by (simp add: main_max_width_Max)
qed

text \<open>
  C6. For every input, the displayed line at an index below 3 is the prompt string
  \<open>$\<close> and a space followed by the raw line, and at any other index the raw line;
  and, the widths a font measures being never negative, \<open>max_width\<close> is the greatest
  width of a displayed line, and 0 for the empty input.
\<close>

theorem styled_lines_and_max_width:
  assumes "\<forall>text. 0 \<le> fst (get_text_size d text)"
  shows "length (main_styled_lines lines) = length lines
    \<and> (\<forall>i < length lines.
          main_styled_lines lines ! i = (if i < 3 then ''$ '' @ lines ! i else lines ! i))
    \<and> main_max_width d lines =
        (if lines = [] then 0
         else Max (set (map (\<lambda>line. fst (get_text_size d line)) (main_styled_lines lines))))"
proof (intro conjI)
  show "length (main_styled_lines lines) = length lines"
    by (rule length_main_styled_lines)
  show "\<forall>i < length lines.
      main_styled_lines lines ! i = (if i < 3 then ''$ '' @ lines ! i else lines ! i)"
    by (simp add: nth_main_styled_lines PROMPT_def)
  show "main_max_width d lines =
      (if lines = [] then 0
       else Max (set (map (\<lambda>line. fst (get_text_size d line)) (main_styled_lines lines))))"
  proof (cases "lines = []")
    case True
    then show ?thesis
      by (simp add: main_max_width_Max main_styled_lines_def)
  next
    case False
    with main_max_width_nonneg [OF assms] show ?thesis by simp
  qed
qed

theorem styled_lines_and_max_width_witness:
  "(\<forall>text. 0 \<le> fst (get_text_size (fixed_height_draw 14) text))
   \<and> main_styled_lines example_lines = [''$ ls -la'', ''$ cd /tmp'', ''$ whoami'', ''root'']
   \<and> main_max_width (fixed_height_draw 14) example_lines = 81"
proof -
  from styled_lines_and_max_width [OF fixed_height_draw_nonneg [of 14], of example_lines]
  have "main_max_width (fixed_height_draw 14) example_lines =
      Max (set (map (\<lambda>line. fst (get_text_size (fixed_height_draw 14) line))
        (main_styled_lines example_lines)))"
    by (simp add: example_lines_def)
  then have "main_max_width (fixed_height_draw 14) example_lines = 81"
    by (simp add: example_styled_lines fixed_height_draw_def)
  with fixed_height_draw_nonneg example_styled_lines show ?thesis
    by blast
qed

text \<open>
  C7. Every image a run saves has the same width: the greatest width of a displayed line
  plus twice the padding (the widths a font measures being never negative).
\<close>

theorem image_widths_equal:
  assumes "transcript w = Some lines" and "\<forall>text. 0 \<le> fst (get_text_size d text)"
  shows "\<forall>img \<in> set (new_images d w).
    fst (img_size img) =
      Max (set (map (\<lambda>line. fst (get_text_size d line)) (main_styled_lines lines))) + 2 * PADDING"
proof (cases "lines = []")
  case True
  then have "main_parts d lines = Inr []"
    by (simp add: main_parts_def main_styled_lines_def parts_end)
  from new_images_parts [OF assms(1) this] show ?thesis by simp
next
  case False
  obtain ps where "main_parts d lines = Inr ps" by (rule main_parts_total)
  from new_images_parts [OF assms(1) this] main_max_width_nonneg [OF assms(2) False]
  show ?thesis
    by (auto simp: part_image_def)
qed

theorem image_widths_equal_witness:
  "transcript (input_world example_lines) = Some example_lines
   \<and> (\<forall>text. 0 \<le> fst (get_text_size (fixed_height_draw 14) text))
   \<and> list_all (\<lambda>img. fst (img_size img) = 121)
        (new_images (fixed_height_draw 14) (input_world example_lines))"
proof -
  have input: "transcript (input_world example_lines) = Some example_lines"
    by (simp add: input_world_def)
  have "Max (set (map (\<lambda>line. fst (get_text_size (fixed_height_draw 14) line))
      (main_styled_lines example_lines))) + 2 * PADDING = 121"
    by (simp add: example_styled_lines fixed_height_draw_def PADDING_def)
  with image_widths_equal [OF input fixed_height_draw_nonneg [of 14]]
  have "list_all (\<lambda>img. fst (img_size img) = 121)
      (new_images (fixed_height_draw 14) (input_world example_lines))"
    by (simp add: list_all_iff)
  with input fixed_height_draw_nonneg show ?thesis by blast
qed

section \<open>Drawing\<close>

lemma length_line_positions: "length (line_positions hs y) = length hs"
  by (induction hs arbitrary: y) simp_all

lemma length_part_positions_slice:
  assumes "length hs = length ls"
  shows "length (part_positions hs (slice_part ls hs a b)) = length (part_lines (slice_part ls hs a b))"
  using assms by (simp add: part_positions_def slice_part_def length_line_positions)

lemma concat_map2_parts:
  assumes "list_all (\<lambda>p. length (f p) = length (g p)) ps"
  shows "concat (map (\<lambda>p. concat (map2 h (f p) (g p))) ps) =
    concat (map2 h (concat (map f ps)) (concat (map g ps)))"
  using assms by (induction ps) simp_all

lemma length_concat_parts:
  assumes "list_all (\<lambda>p. length (f p) = length (g p)) ps"
  shows "length (concat (map f ps)) = length (concat (map g ps))"
  using assms by (induction ps) simp_all

lemma map2_by_index:
  assumes "length ys = length xs"
  shows "map2 g ys xs = map (\<lambda>(i, y). g y (xs ! i)) (zip [0..<length xs] ys)"
  using assms by (intro nth_equalityI) simp_all

lemma slices_positions_fit:
  assumes "length hs = length ls"
  shows "list_all (\<lambda>p. length (part_positions hs p) = length (part_lines p))
    (map2 (slice_part ls hs) starts cuts)"
  using assms by (auto simp: list_all_iff length_part_positions_slice)

lemma draw_line_styled:
  assumes "i < length lines"
  shows "draw_line d y (main_styled_lines lines ! i) =
    (if i < 3 \<or> startswith (lines ! i) PROMPT then
       [\<lparr>call_xy = (PADDING, y), call_text = PROMPT, call_fill = PROMPT_COLOR\<rparr>,
        \<lparr>call_xy = (PADDING + fst (get_text_size d PROMPT), y),
         call_text = (if i < 3 then lines ! i else drop (length PROMPT) (lines ! i)),
         call_fill = TEXT_COLOR\<rparr>]
     else [\<lparr>call_xy = (PADDING, y), call_text = lines ! i, call_fill = TEXT_COLOR\<rparr>])"
  using assms
  by (simp add: nth_main_styled_lines draw_line_def startswith_def split: prod.split)

lemma calls_of_new_images:
  assumes "transcript w = Some lines"
  shows "\<exists>ys. length ys = length lines
    \<and> concat (map img_calls (new_images d w)) =
        concat (map2 (draw_line d) ys (main_styled_lines lines))"
proof -
  let ?ls = "main_styled_lines lines" and ?hs = "main_line_heights d lines"
  from parts_slices [OF length_main_line_heights, of 0 lines d]
  obtain cuts where ps: "main_parts d lines = Inr (map2 (slice_part ?ls ?hs) (0 # cuts) cuts)"
    and sorted: "sorted_wrt (<) (0 # cuts)"
    and last: "last (0 # cuts) = length ?ls"
    by (auto simp: main_parts_def)
  let ?ps = "map2 (slice_part ?ls ?hs) (0 # cuts) cuts"
  let ?ys = "concat (map (part_positions ?hs) ?ps)"
  have fit: "list_all (\<lambda>p. length (part_positions ?hs p) = length (part_lines p)) ?ps"
    by (rule slices_positions_fit) (rule length_main_line_heights)
  from concat_slices [OF sorted, of ?ls ?hs] last
  have lines: "concat (map part_lines ?ps) = ?ls" by simp
  from fit have "length ?ys = length (concat (map part_lines ?ps))"
    by (rule length_concat_parts)
  with lines have len: "length ?ys = length lines"
    by (simp add: length_main_styled_lines)
  have "concat (map img_calls (new_images d w)) =
      concat (map (\<lambda>p. concat (map2 (draw_line d) (part_positions ?hs p) (part_lines p))) ?ps)"
    by (simp add: new_images_parts [OF assms ps] part_image_def comp_def)
  also have "\<dots> = concat (map2 (draw_line d) ?ys (concat (map part_lines ?ps)))"
    using fit by (rule concat_map2_parts)
  finally have "concat (map img_calls (new_images d w)) = concat (map2 (draw_line d) ?ys ?ls)"
    using lines by simp
  with len show ?thesis by blast
qed

text \<open>
  C3, as the code has it. The calls of \<open>draw.text\<close> of a run, over all its images in
  order, are those of the lines of the input in order, each at its own height: for a
  line at an index below 3, and for a later line whose own text starts with the prompt
  string, the prompt in the prompt colour and then the text after the prompt in the text
  colour; for any other line, the whole line in the text colour.
\<close>

theorem prompt_colour_follows_prefix:
  assumes "transcript w = Some lines"
  shows "\<exists>ys. length ys = length lines
    \<and> concat (map img_calls (new_images d w)) =
        concat (map (\<lambda>(i, y).
          if i < 3 \<or> startswith (lines ! i) PROMPT then
            [\<lparr>call_xy = (PADDING, y), call_text = PROMPT, call_fill = PROMPT_COLOR\<rparr>,
             \<lparr>call_xy = (PADDING + fst (get_text_size d PROMPT), y),
              call_text = (if i < 3 then lines ! i else drop (length PROMPT) (lines ! i)),
              call_fill = TEXT_COLOR\<rparr>]
          else [\<lparr>call_xy = (PADDING, y), call_text = lines ! i, call_fill = TEXT_COLOR\<rparr>])
          (zip [0..<length lines] ys))"
proof -
  from calls_of_new_images [OF assms, of d]
  obtain ys where len: "length ys = length lines"
    and calls: "concat (map img_calls (new_images d w)) =
        concat (map2 (draw_line d) ys (main_styled_lines lines))"
    by blast
  from len have "map2 (draw_line d) ys (main_styled_lines lines) =
      map (\<lambda>(i, y). draw_line d y (main_styled_lines lines ! i)) (zip [0..<length lines] ys)"
    using map2_by_index [of ys "main_styled_lines lines" "draw_line d"]
    by (simp add: length_main_styled_lines)
  also have "\<dots> = map (\<lambda>(i, y).
      if i < 3 \<or> startswith (lines ! i) PROMPT then
        [\<lparr>call_xy = (PADDING, y), call_text = PROMPT, call_fill = PROMPT_COLOR\<rparr>,
         \<lparr>call_xy = (PADDING + fst (get_text_size d PROMPT), y),
          call_text = (if i < 3 then lines ! i else drop (length PROMPT) (lines ! i)),
          call_fill = TEXT_COLOR\<rparr>]
      else [\<lparr>call_xy = (PADDING, y), call_text = lines ! i, call_fill = TEXT_COLOR\<rparr>])
      (zip [0..<length lines] ys)"
  proof (rule map_cong [OF refl])
    fix iy assume mem: "iy \<in> set (zip [0..<length lines] ys)"
    obtain i y where iy: "iy = (i, y)" by (cases iy)
    with mem have "i < length lines"
      by (auto dest: set_zip_leftD)
    from draw_line_styled [OF this, of d y]
    show "(case iy of (i, y) \<Rightarrow> draw_line d y (main_styled_lines lines ! i)) =
      (case iy of (i, y) \<Rightarrow>
        if i < 3 \<or> startswith (lines ! i) PROMPT then
          [\<lparr>call_xy = (PADDING, y), call_text = PROMPT, call_fill = PROMPT_COLOR\<rparr>,
           \<lparr>call_xy = (PADDING + fst (get_text_size d PROMPT), y),
            call_text = (if i < 3 then lines ! i else drop (length PROMPT) (lines ! i)),
            call_fill = TEXT_COLOR\<rparr>]
        else [\<lparr>call_xy = (PADDING, y), call_text = lines ! i, call_fill = TEXT_COLOR\<rparr>])"
      by (simp add: iy)
  qed
  finally show ?thesis
    using len calls by (intro exI [of _ ys]) simp
qed

theorem prompt_colour_follows_prefix_witness:
  "transcript (input_world prompt_at_index_3) = Some prompt_at_index_3
   \<and> map (\<lambda>c. (call_text c, call_fill c))
       (concat (map img_calls (new_images (fixed_height_draw 14) (input_world prompt_at_index_3)))) =
     [(''$ '', PROMPT_COLOR), (''make'', TEXT_COLOR), (''$ '', PROMPT_COLOR), (''make test'', TEXT_COLOR),
      (''$ '', PROMPT_COLOR), (''git log'', TEXT_COLOR), (''$ '', PROMPT_COLOR), (''exit'', TEXT_COLOR)]"
proof -
  let ?d = "fixed_height_draw 14"
  let ?calls = "\<lambda>(i, y).
    if i < 3 \<or> startswith (prompt_at_index_3 ! i) PROMPT then
      [\<lparr>call_xy = (PADDING, y), call_text = PROMPT, call_fill = PROMPT_COLOR\<rparr>,
       \<lparr>call_xy = (PADDING + fst (get_text_size ?d PROMPT), y),
        call_text = (if i < 3 then prompt_at_index_3 ! i
                     else drop (length PROMPT) (prompt_at_index_3 ! i)),
        call_fill = TEXT_COLOR\<rparr>]
    else [\<lparr>call_xy = (PADDING, y), call_text = prompt_at_index_3 ! i, call_fill = TEXT_COLOR\<rparr>]"
  have input: "transcript (input_world prompt_at_index_3) = Some prompt_at_index_3"
    by (simp add: input_world_def)
  have four: "length prompt_at_index_3 = 4"
    by (simp add: prompt_at_index_3_def)
  from prompt_colour_follows_prefix [OF input, of ?d]
  obtain ys where len: "length ys = length prompt_at_index_3"
    and calls: "concat (map img_calls (new_images ?d (input_world prompt_at_index_3))) =
        concat (map ?calls (zip [0..<length prompt_at_index_3] ys))"
    by blast
  from len four obtain y0 y1 y2 y3 where ys: "ys = [y0, y1, y2, y3]"
    by (auto simp: length_Suc_conv numeral_eq_Suc)
  have "zip [0..<length prompt_at_index_3] ys = [(0, y0), (1, y1), (2, y2), (3, y3)]"
    by (simp add: four ys upt_rec)
  then have "map (\<lambda>c. (call_text c, call_fill c))
      (concat (map ?calls (zip [0..<length prompt_at_index_3] ys))) =
     [(''$ '', PROMPT_COLOR), (''make'', TEXT_COLOR), (''$ '', PROMPT_COLOR), (''make test'', TEXT_COLOR),
      (''$ '', PROMPT_COLOR), (''git log'', TEXT_COLOR), (''$ '', PROMPT_COLOR), (''exit'', TEXT_COLOR)]"
    by (simp add: prompt_at_index_3_def startswith_def PROMPT_def)
  with calls input show ?thesis by simp
qed

text \<open>
  The line at index 3 of this input starts with the prompt string, and its prompt is
  drawn in the prompt colour, not in the text colour.
\<close>

theorem later_prompt_line_in_prompt_colour:
  "prompt_at_index_3 ! 3 = ''$ exit''
   \<and> map call_text
       (concat (map img_calls (new_images (fixed_height_draw 14) (input_world prompt_at_index_3)))) =
     [''$ '', ''make'', ''$ '', ''make test'', ''$ '', ''git log'', ''$ '', ''exit'']
   \<and> map call_fill
       (concat (map img_calls (new_images (fixed_height_draw 14) (input_world prompt_at_index_3)))) =
     [''#A3BE8C'', ''#E5E9F0'', ''#A3BE8C'', ''#E5E9F0'', ''#A3BE8C'', ''#E5E9F0'',
      ''#A3BE8C'', ''#E5E9F0'']
   \<and> PROMPT_COLOR = ''#A3BE8C'' \<and> TEXT_COLOR = ''#E5E9F0''"
  by code_simp

end
